theory Spec2Isabelle
  imports Main
begin

section \<open>Characters and character classes of the patterns\<close>

text \<open>
  File contents, paths and names are Python \<open>str\<close> values; they are modelled as HOL
  strings, whose characters are the code points below 256. The patterns of \<open>main.py\<close> use four kinds of one-character tests: a literal
  character, a bracket class such as \<open>[a-zA-Z0-9_]\<close> or \<open>['\"]\<close>, the escape \<open>\s\<close> and
  the dot. No flag is passed to \<open>re.search\<close> or \<open>re.match\<close>, so the dot matches every
  character except the line feed, and \<open>\s\<close> is the Unicode notion of white space
  (\<open>str.isspace\<close>), whose members below code point 256 are listed in \<open>py_isspace\<close>.
\<close>

definition newline :: char where
  "newline = CHR 0x0A"

definition py_isspace :: "char \<Rightarrow> bool" where
  "py_isspace c = (c \<in> set [CHR 0x09, CHR 0x0A, CHR 0x0B, CHR 0x0C, CHR 0x0D,
                             CHR 0x1C, CHR 0x1D, CHR 0x1E, CHR 0x1F, CHR 0x20,
                             CHR 0x85, CHR 0xA0])"

datatype citem = Single char | Range char char

datatype atom = Lit char | Class "citem list" | Whitespace | AnyChar

fun in_item :: "citem \<Rightarrow> char \<Rightarrow> bool" where
  "in_item (Single d) c = (c = d)"
| "in_item (Range lo hi) c =
     ((of_char lo :: nat) \<le> of_char c \<and> (of_char c :: nat) \<le> of_char hi)"

fun accepts :: "atom \<Rightarrow> char \<Rightarrow> bool" where
  "accepts (Lit d) c = (c = d)"
| "accepts (Class items) c = list_ex (\<lambda>i. in_item i c) items"
| "accepts Whitespace c = py_isspace c"
| "accepts AnyChar c = (c \<noteq> newline)"

section \<open>Regular expressions and their matching\<close>

text \<open>
  The patterns use concatenation, alternation \<open>(form|POST)\<close>, the postfix operators
  \<open>*\<close>, \<open>+\<close>, \<open>?\<close> and groups; there are no back-references, look-arounds or anchors
  inside them. For such patterns \<open>re.search\<close> finds a match exactly when some substring
  of the text belongs to the language of the pattern (greediness only selects which
  match is reported). \<open>Never\<close> is not Python syntax; the derivative needs it.
\<close>

datatype rexp = Never | Empty | Sym atom | Seq rexp rexp | Alt rexp rexp | Rep rexp

definition conc :: "string set \<Rightarrow> string set \<Rightarrow> string set" where
  "conc A B = {u @ v | u v. u \<in> A \<and> v \<in> B}"

inductive_set star :: "string set \<Rightarrow> string set" for A :: "string set" where
  star_nil: "[] \<in> star A"
| star_step: "u \<in> A \<Longrightarrow> v \<in> star A \<Longrightarrow> u @ v \<in> star A"

fun lang :: "rexp \<Rightarrow> string set" where
  "lang Never = {}"
| "lang Empty = {[]}"
| "lang (Sym a) = {[c] | c. accepts a c}"
| "lang (Seq r s) = conc (lang r) (lang s)"
| "lang (Alt r s) = lang r \<union> lang s"
| "lang (Rep r) = star (lang r)"

fun nullable :: "rexp \<Rightarrow> bool" where
  "nullable Never = False"
| "nullable Empty = True"
| "nullable (Sym a) = False"
| "nullable (Seq r s) = (nullable r \<and> nullable s)"
| "nullable (Alt r s) = (nullable r \<or> nullable s)"
| "nullable (Rep r) = True"

definition mk_seq :: "rexp \<Rightarrow> rexp \<Rightarrow> rexp" where
  "mk_seq r s = (if r = Never \<or> s = Never then Never else if r = Empty then s else Seq r s)"

definition mk_alt :: "rexp \<Rightarrow> rexp \<Rightarrow> rexp" where
  "mk_alt r s = (if r = Never then s else if s = Never \<or> r = s then r else Alt r s)"

fun deriv :: "char \<Rightarrow> rexp \<Rightarrow> rexp" where
  "deriv c Never = Never"
| "deriv c Empty = Never"
| "deriv c (Sym a) = (if accepts a c then Empty else Never)"
| "deriv c (Seq r s) =
     (if nullable r then mk_alt (mk_seq (deriv c r) s) (deriv c s)
      else mk_seq (deriv c r) s)"
| "deriv c (Alt r s) = mk_alt (deriv c r) (deriv c s)"
| "deriv c (Rep r) = mk_seq (deriv c r) (Rep r)"

text \<open>\<open>matches_at r s\<close>: a match of \<open>r\<close> starts at the beginning of \<open>s\<close> (\<open>re.match\<close>).\<close>

fun matches_at :: "rexp \<Rightarrow> string \<Rightarrow> bool" where
  "matches_at r [] = nullable r"
| "matches_at r (c # cs) = (nullable r \<or> matches_at (deriv c r) cs)"

text \<open>\<open>fullmatch r s\<close>: the whole of \<open>s\<close> is a match of \<open>r\<close>.\<close>

fun fullmatch :: "rexp \<Rightarrow> string \<Rightarrow> bool" where
  "fullmatch r [] = nullable r"
| "fullmatch r (c # cs) = fullmatch (deriv c r) cs"

text \<open>
  \<open>re_search r s\<close>: a match of \<open>r\<close> starts at some position of \<open>s\<close>, the positions tried
  from left to right, the end of the text included (\<open>re.search\<close>).
\<close>

fun re_search :: "rexp \<Rightarrow> string \<Rightarrow> bool" where
  "re_search r [] = nullable r"
| "re_search r (c # cs) = (matches_at r (c # cs) \<or> re_search r cs)"

text \<open>Abbreviations for writing the patterns down the way the source spells them.\<close>

fun lit :: "string \<Rightarrow> rexp" where
  "lit [] = Empty"
| "lit (c # cs) = Seq (Sym (Lit c)) (lit cs)"

fun seqs :: "rexp list \<Rightarrow> rexp" where
  "seqs [] = Empty"
| "seqs (r # rs) = Seq r (seqs rs)"

definition many :: "rexp \<Rightarrow> rexp" where
  "many r = Rep r"

definition many1 :: "rexp \<Rightarrow> rexp" where
  "many1 r = Seq r (Rep r)"

definition opt :: "rexp \<Rightarrow> rexp" where
  "opt r = Alt r Empty"

definition ws :: rexp where
  "ws = Sym Whitespace"

definition dot :: rexp where
  "dot = Sym AnyChar"

definition word_class :: rexp where
  "word_class = Sym (Class [Range CHR ''a'' CHR ''z'', Range CHR ''A'' CHR ''Z'',
                            Range CHR ''0'' CHR ''9'', Single CHR ''_''])"

definition quote_class :: rexp where
  "quote_class = Sym (Class [Single CHR 0x27, Single CHR 0x22])"

section \<open>The patterns of \<open>main.py\<close>\<close>

text \<open>
  The source builds each pattern by interpolating the names into a raw f-string. The
  names are taken literally here, which is what Python does with every name that
  \<open>main\<close> lets through its check (letters, digits, underscores and possibly one final
  line feed, none of which is a metacharacter). A call of the predicates with a name
  holding metacharacters is outside the model.

  Pattern by pattern (source lines 41--44 and 68--71); \<open>\"\<close> inside a bracket class
  is the double quote, and the unescaped \<open>]\<close> after a class is a literal bracket:
  \<^item> \<^verbatim>\<open>{token_name}\s*=\s*([a-zA-Z0-9_]+\.)?generate[_]*token\s*\(.*\)\<close>
  \<^item> \<^verbatim>\<open>{token_name}\s*=\s*secrets\.token_hex\s*\(.*\)\<close>
  \<^item> \<^verbatim>\<open>{token_name}\s*=\s*os\.urandom\s*\(.*\)\<close>
  \<^item> \<^verbatim>\<open>{token_name}\s*=\s*uuid\.uuid4\s*\(.*\)\<close>
  \<^item> \<^verbatim>\<open>if\s+request\.(form|POST)\s*\[['\"]{form_field}['\"]\].*!=\s*{token_name}.*\<close>
  \<^item> \<^verbatim>\<open>if\s+request\.(form|POST)\.get\s*\(['\"]{form_field}['\"]\].*!=\s*{token_name}.*\<close>
  \<^item> \<^verbatim>\<open>if\s+session\s*\[['\"]{token_name}['\"]\].*!=\s*request\.(form|POST)\s*\[['\"]{form_field}['\"]].*\<close>
  \<^item> \<^verbatim>\<open>if\s+session\s*\[['\"]{token_name}['\"]\].*!=\s*request\.(form|POST)\.get\s*\(['\"]{form_field}['\"]].*\<close>
\<close>

definition assign_to :: "string \<Rightarrow> rexp list" where
  "assign_to token_name = [lit token_name, many ws, lit ''='', many ws]"

definition call_args :: "rexp list" where
  "call_args = [many ws, lit ''('', many dot, lit '')'']"

definition generation_patterns :: "string \<Rightarrow> rexp list" where
  "generation_patterns token_name =
     [seqs (assign_to token_name @
            [opt (Seq (many1 word_class) (lit ''.'')), lit ''generate'',
             many (Sym (Class [Single CHR ''_''])), lit ''token''] @ call_args),
      seqs (assign_to token_name @ [lit ''secrets.token_hex''] @ call_args),
      seqs (assign_to token_name @ [lit ''os.urandom''] @ call_args),
      seqs (assign_to token_name @ [lit ''uuid.uuid4''] @ call_args)]"

definition request_obj :: "rexp list" where
  "request_obj = [lit ''request.'', Alt (lit ''form'') (lit ''POST'')]"

definition quoted :: "string \<Rightarrow> rexp list" where
  "quoted name = [quote_class, lit name, quote_class]"

definition validation_patterns :: "string \<Rightarrow> string \<Rightarrow> rexp list" where
  "validation_patterns token_name form_field =
     [seqs ([lit ''if'', many1 ws] @ request_obj @ [many ws, lit ''[''] @ quoted form_field @
            [lit '']'', many dot, lit ''!='', many ws, lit token_name, many dot]),
      seqs ([lit ''if'', many1 ws] @ request_obj @ [lit ''.get'', many ws, lit ''(''] @
            quoted form_field @
            [lit '']'', many dot, lit ''!='', many ws, lit token_name, many dot]),
      seqs ([lit ''if'', many1 ws, lit ''session'', many ws, lit ''[''] @ quoted token_name @
            [lit '']'', many dot, lit ''!='', many ws] @ request_obj @ [many ws, lit ''[''] @
            quoted form_field @ [lit '']'', many dot]),
      seqs ([lit ''if'', many1 ws, lit ''session'', many ws, lit ''[''] @ quoted token_name @
            [lit '']'', many dot, lit ''!='', many ws] @ request_obj @
            [lit ''.get'', many ws, lit ''(''] @ quoted form_field @ [lit '']'', many dot])]"

text \<open>The loop \<^verbatim>\<open>for pattern in patterns: if re.search(pattern, code): return True\<close>.\<close>

fun any_pattern_found :: "rexp list \<Rightarrow> string \<Rightarrow> bool" where
  "any_pattern_found [] code = False"
| "any_pattern_found (pattern # patterns) code =
     (if re_search pattern code then True else any_pattern_found patterns code)"

definition is_token_generation_present :: "string \<Rightarrow> string \<Rightarrow> bool" where
  "is_token_generation_present code token_name =
     any_pattern_found (generation_patterns token_name) code"

definition is_token_validation_present :: "string \<Rightarrow> string \<Rightarrow> string \<Rightarrow> bool" where
  "is_token_validation_present code token_name form_field =
     any_pattern_found (validation_patterns token_name form_field) code"

text \<open>
  The check of \<open>main\<close>: \<^verbatim>\<open>re.match(r"^[a-zA-Z_][a-zA-Z0-9_]*$", name)\<close>. In Python
  \<open>$\<close> matches at the end of the string and also just before a line feed that ends the
  string.
\<close>

definition identifier_re :: rexp where
  "identifier_re =
     Seq (Sym (Class [Range CHR ''a'' CHR ''z'', Range CHR ''A'' CHR ''Z'', Single CHR ''_'']))
         (many word_class)"

definition match_to_dollar :: "rexp \<Rightarrow> string \<Rightarrow> bool" where
  "match_to_dollar r s =
     (fullmatch r s \<or> (s \<noteq> [] \<and> last s = newline \<and> fullmatch r (butlast s)))"

definition identifier_ok :: "string \<Rightarrow> bool" where
  "identifier_ok name = match_to_dollar identifier_re name"

text \<open>
  What the specification calls an identifier, in its own words (section 4.4: a letter
  or underscore, followed by alphanumerics and underscores), for comparison with the
  check that \<open>main\<close> performs.
\<close>

definition ascii_letter :: "char \<Rightarrow> bool" where
  "ascii_letter c =
     (((of_char CHR ''a'' :: nat) \<le> of_char c \<and> (of_char c :: nat) \<le> of_char CHR ''z'')
      \<or> ((of_char CHR ''A'' :: nat) \<le> of_char c \<and> (of_char c :: nat) \<le> of_char CHR ''Z''))"

definition ascii_digit :: "char \<Rightarrow> bool" where
  "ascii_digit c =
     ((of_char CHR ''0'' :: nat) \<le> of_char c \<and> (of_char c :: nat) \<le> of_char CHR ''9'')"

definition is_identifier :: "string \<Rightarrow> bool" where
  "is_identifier s =
     (case s of
        [] \<Rightarrow> False
      | c # cs \<Rightarrow>
          (ascii_letter c \<or> c = CHR ''_'')
          \<and> list_all (\<lambda>d. ascii_letter d \<or> ascii_digit d \<or> d = CHR ''_'') cs)"

section \<open>Paths (\<open>os.path\<close> on POSIX)\<close>

text \<open>
  \<open>str.startswith\<close>, \<open>str.endswith\<close>, the substring test \<open>x in y\<close>, and the two
  library functions the exclusion check calls, \<open>posixpath.join\<close> (with two arguments)
  and \<open>posixpath.normpath\<close>, written after the library's own code.
\<close>

definition startswith :: "string \<Rightarrow> string \<Rightarrow> bool" where
  "startswith s p = (take (length p) s = p)"

definition endswith :: "string \<Rightarrow> string \<Rightarrow> bool" where
  "endswith s p = (length p \<le> length s \<and> drop (length s - length p) s = p)"

fun is_substring :: "string \<Rightarrow> string \<Rightarrow> bool" where
  "is_substring x [] = (x = [])"
| "is_substring x (c # cs) = (startswith (c # cs) x \<or> is_substring x cs)"

definition path_join :: "string \<Rightarrow> string \<Rightarrow> string" where
  "path_join a b =
     (if startswith b ''/'' then b
      else if a = [] \<or> endswith a ''/'' then a @ b
      else a @ ''/'' @ b)"

fun split_sep :: "string \<Rightarrow> string list" where
  "split_sep [] = [[]]"
| "split_sep (c # cs) =
     (if c = CHR ''/'' then [] # split_sep cs
      else (case split_sep cs of [] \<Rightarrow> [[c]] | component # comps \<Rightarrow> (c # component) # comps))"

fun join_sep :: "string list \<Rightarrow> string" where
  "join_sep [] = []"
| "join_sep [component] = component"
| "join_sep (component # comps) = component @ ''/'' @ join_sep comps"

fun norm_comps :: "nat \<Rightarrow> string list \<Rightarrow> string list \<Rightarrow> string list" where
  "norm_comps initial_slashes [] new_comps = new_comps"
| "norm_comps initial_slashes (component # comps) new_comps =
     (if component = [] \<or> component = ''.'' then norm_comps initial_slashes comps new_comps
      else if component \<noteq> ''..'' \<or> (initial_slashes = 0 \<and> new_comps = [])
              \<or> (new_comps \<noteq> [] \<and> last new_comps = ''..'')
           then norm_comps initial_slashes comps (new_comps @ [component])
      else if new_comps \<noteq> [] then norm_comps initial_slashes comps (butlast new_comps)
      else norm_comps initial_slashes comps new_comps)"

definition normpath :: "string \<Rightarrow> string" where
  "normpath path =
     (if path = [] then ''.''
      else
        let initial_slashes =
              (if startswith path ''/''
               then (if startswith path ''//'' \<and> \<not> startswith path ''///'' then 2 else 1)
               else 0);
            comps = norm_comps initial_slashes (split_sep path) [];
            p = replicate initial_slashes CHR ''/'' @ join_sep comps
        in if p = [] then ''.'' else p)"

section \<open>The file system and the log\<close>

text \<open>
  The program reads the file system and writes log records. The file system is a
  parameter: what \<open>os.path.isfile\<close>, \<open>os.path.isdir\<close>, \<open>os.walk\<close> and
  \<open>open(...).read()\<close> answer for a path. \<open>os.walk\<close> yields triples (root, directory
  names, file names); on a real file system the generator is finite, so its result is
  a list. A read either yields the decoded text, or raises \<open>FileNotFoundError\<close>, or
  raises some other exception whose text is kept for the log line. Everything the
  program does to the outside is recorded, in order, as a list of events.
\<close>

datatype read_result = Content string | FileNotFound | ReadFailure string

record env =
  fs_isfile :: "string \<Rightarrow> bool"
  fs_isdir :: "string \<Rightarrow> bool"
  fs_walk :: "string \<Rightarrow> (string \<times> string list \<times> string list) list"
  fs_read :: "string \<Rightarrow> read_result"

datatype level = INFO | WARNING | ERROR

datatype event =
    Log level string
  | IsFile string
  | IsDir string
  | Walk string
  | OpenRead string

section \<open>\<open>analyze_file\<close>, \<open>analyze_directory\<close> and \<open>main\<close>\<close>

definition analyze_file ::
  "env \<Rightarrow> string \<Rightarrow> string \<Rightarrow> string \<Rightarrow> (bool \<times> bool) \<times> event list" where
  "analyze_file e file_path token_name form_field =
     (case fs_read e file_path of
        FileNotFound \<Rightarrow>
          ((False, False),
           [OpenRead file_path, Log ERROR (''File not found: '' @ file_path)])
      | ReadFailure msg \<Rightarrow>
          ((False, False),
           [OpenRead file_path,
            Log ERROR (''Error reading file '' @ file_path @ '': '' @ msg)])
      | Content code \<Rightarrow>
          ((is_token_generation_present code token_name,
            is_token_validation_present code token_name form_field),
           [OpenRead file_path]))"

definition skipping_message :: "string \<Rightarrow> string" where
  "skipping_message file_path = ''Skipping excluded file: '' @ file_path"

text \<open>The test of source line 135, \<open>any(... for ex in exclude)\<close>.\<close>

definition is_excluded :: "string \<Rightarrow> string list \<Rightarrow> string \<Rightarrow> bool" where
  "is_excluded dir_path exclude file_path =
     list_ex (\<lambda>ex. normpath (path_join dir_path ex) = normpath file_path
                  \<or> is_substring (normpath (path_join dir_path ex)) (normpath file_path))
             exclude"

text \<open>
  The inner loop over the files of one directory and the outer loop over the triples
  of \<open>os.walk\<close>; the loop state is the two flags and the events so far.
\<close>

fun files_loop ::
  "env \<Rightarrow> string \<Rightarrow> string \<Rightarrow> string \<Rightarrow> string list \<Rightarrow> string \<Rightarrow> string list
     \<Rightarrow> (bool \<times> bool) \<times> event list \<Rightarrow> (bool \<times> bool) \<times> event list" where
  "files_loop e dir_path token_name form_field exclude root [] st = st"
| "files_loop e dir_path token_name form_field exclude root (file # files)
       ((generation_found, validation_found), evs) =
     (if endswith file ''.py'' then
        (let file_path = path_join root file in
         if is_excluded dir_path exclude file_path then
           files_loop e dir_path token_name form_field exclude root files
             ((generation_found, validation_found),
              evs @ [Log INFO (skipping_message file_path)])
         else
           (case analyze_file e file_path token_name form_field of
              ((gen, val), evs') \<Rightarrow>
                files_loop e dir_path token_name form_field exclude root files
                  ((generation_found \<or> gen, validation_found \<or> val), evs @ evs')))
      else
        files_loop e dir_path token_name form_field exclude root files
          ((generation_found, validation_found), evs))"

fun walk_loop ::
  "env \<Rightarrow> string \<Rightarrow> string \<Rightarrow> string \<Rightarrow> string list
     \<Rightarrow> (string \<times> string list \<times> string list) list
     \<Rightarrow> (bool \<times> bool) \<times> event list \<Rightarrow> (bool \<times> bool) \<times> event list" where
  "walk_loop e dir_path token_name form_field exclude [] st = st"
| "walk_loop e dir_path token_name form_field exclude ((root, dirs, files) # rest) st =
     walk_loop e dir_path token_name form_field exclude rest
       (files_loop e dir_path token_name form_field exclude root files st)"

definition analyze_directory ::
  "env \<Rightarrow> string \<Rightarrow> string \<Rightarrow> string \<Rightarrow> string list \<Rightarrow> (bool \<times> bool) \<times> event list" where
  "analyze_directory e dir_path token_name form_field exclude =
     walk_loop e dir_path token_name form_field exclude (fs_walk e dir_path)
       ((False, False), [Walk dir_path])"

text \<open>
  For stating what a scan does: the candidates of a walk are the joined paths of the
  \<open>.py\<close> files in the order the loops meet them, and the scanned files are the
  candidates that the exclusion test lets through.
\<close>

definition candidates_in :: "string \<Rightarrow> string list \<Rightarrow> string list" where
  "candidates_in root files =
     map (path_join root) (filter (\<lambda>file. endswith file ''.py'') files)"

definition candidate_files :: "(string \<times> string list \<times> string list) list \<Rightarrow> string list" where
  "candidate_files triples =
     concat (map (\<lambda>(root, dirs, files). candidates_in root files) triples)"

definition scanned_files :: "env \<Rightarrow> string \<Rightarrow> string list \<Rightarrow> string list" where
  "scanned_files e dir_path exclude =
     filter (\<lambda>p. \<not> is_excluded dir_path exclude p) (candidate_files (fs_walk e dir_path))"

record args =
  source_code_path :: string
  token_name :: string
  form_field :: string
  exclude :: "string list"

definition report :: "bool \<times> bool \<Rightarrow> event list" where
  "report found =
     [if fst found then Log INFO ''CSRF token generation logic found.''
      else Log WARNING ''CSRF token generation logic NOT found.'',
      if snd found then Log INFO ''CSRF token validation logic found.''
      else Log WARNING ''CSRF token validation logic NOT found.'']"

definition invalid_names_message :: string where
  "invalid_names_message =
     ''Invalid token_name or form_field.  Must start with a letter or underscore and contain only alphanumeric characters and underscores.''"

text \<open>
  \<open>main\<close> after \<open>parse_args\<close>: the result is the exit status of the process (\<open>sys.exit(1)\<close>
  gives 1, returning from \<open>main\<close> gives 0) and the events in order.
\<close>

definition main :: "env \<Rightarrow> args \<Rightarrow> nat \<times> event list" where
  "main e a =
     (if \<not> identifier_ok (token_name a) \<or> \<not> identifier_ok (form_field a) then
        (1, [Log ERROR invalid_names_message])
      else if fs_isfile e (source_code_path a) then
        (case analyze_file e (source_code_path a) (token_name a) (form_field a) of
           (found, evs) \<Rightarrow> (0, [IsFile (source_code_path a)] @ evs @ report found))
      else if fs_isdir e (source_code_path a) then
        (case analyze_directory e (source_code_path a) (token_name a) (form_field a)
                (exclude a) of
           (found, evs) \<Rightarrow>
             (0, [IsFile (source_code_path a), IsDir (source_code_path a)] @ evs
                 @ report found))
      else
        (1, [IsFile (source_code_path a), IsDir (source_code_path a),
             Log ERROR (''Invalid source code path: '' @ source_code_path a)]))"

section \<open>A sample tree\<close>

text \<open>
  A small file system for running the definitions: a project with a file that
  generates a token, one that validates it through the subscript shape, one that
  validates it through the \<open>.get(...)\<close> call shape, an undecodable file, a file that
  has vanished between the walk and the read, a text file, and a directory without
  Python files.
\<close>

definition generation_text :: string where
  "generation_text = ''csrf_token = generate_token()''"

definition subscript_text :: string where
  "subscript_text =
     ''if request.form['' @ [CHR 0x27] @ ''csrf_token'' @ [CHR 0x27] @ ''] != csrf_token:''"

definition call_text :: string where
  "call_text =
     ''if request.POST.get('' @ [CHR 0x27] @ ''csrf_token'' @ [CHR 0x27] @ '') != csrf_token:''"

definition sample_files :: "(string \<times> read_result) list" where
  "sample_files =
     [(''proj/gen.py'', Content generation_text),
      (''proj/val.py'', Content subscript_text),
      (''proj/broken.py'', ReadFailure ''invalid start byte''),
      (''proj/notes.txt'', Content generation_text),
      (''proj/src/test_a.py'', Content ''x = 1''),
      (''proj/api/views.py'', Content call_text),
      (''proj/docs/README.md'', Content generation_text)]"

definition sample_fs :: env where
  "sample_fs =
     \<lparr>fs_isfile = (\<lambda>p. map_of sample_files p \<noteq> None),
      fs_isdir = (\<lambda>p. p \<in> set [''proj'', ''proj/src'', ''proj/api'', ''proj/docs'', ''empty'']),
      fs_walk = (\<lambda>p.
        if p = ''proj'' then
          [(''proj'', [''src'', ''api'', ''docs''],
            [''gen.py'', ''val.py'', ''broken.py'', ''gone.py'', ''notes.txt'']),
           (''proj/src'', [], [''test_a.py'']),
           (''proj/api'', [], [''views.py'']),
           (''proj/docs'', [], [''README.md''])]
        else if p = ''proj/src'' then [(''proj/src'', [], [''test_a.py''])]
        else if p = ''proj/api'' then [(''proj/api'', [], [''views.py''])]
        else if p = ''proj/docs'' then [(''proj/docs'', [], [''README.md''])]
        else if p = ''empty'' then [(''empty'', [], [])]
        else []),
      fs_read = (\<lambda>p. case map_of sample_files p of None \<Rightarrow> FileNotFound | Some r \<Rightarrow> r)\<rparr>"

definition cli :: "string \<Rightarrow> string \<Rightarrow> string \<Rightarrow> string list \<Rightarrow> args" where
  "cli path tname ffield excl =
     \<lparr>source_code_path = path, token_name = tname, form_field = ffield, exclude = excl\<rparr>"

section \<open>Correctness of the matcher\<close>

lemma nullable_iff: "nullable r \<longleftrightarrow> [] \<in> lang r"
  by (induction r) (auto simp: conc_def intro: star_nil)

lemma star_cons_aux:
  "x \<in> star A \<Longrightarrow> x = c # w \<Longrightarrow> \<exists>u v. w = u @ v \<and> c # u \<in> A \<and> v \<in> star A"
proof (induction arbitrary: w rule: star.induct)
  case star_nil
  then show ?case by simp
next
  case (star_step u v)
  show ?case
  proof (cases u)
    case Nil
    with star_step show ?thesis by simp
  next
    case (Cons d u')
    with star_step.prems have "d = c" and "w = u' @ v" by simp_all
    with Cons star_step.hyps show ?thesis by blast
  qed
qed

lemma star_cons:
  "c # w \<in> star A \<longleftrightarrow> (\<exists>u v. w = u @ v \<and> c # u \<in> A \<and> v \<in> star A)"
proof
  assume "c # w \<in> star A"
  then show "\<exists>u v. w = u @ v \<and> c # u \<in> A \<and> v \<in> star A"
    by (rule star_cons_aux) simp
next
  assume "\<exists>u v. w = u @ v \<and> c # u \<in> A \<and> v \<in> star A"
  then obtain u v where "w = u @ v" "c # u \<in> A" "v \<in> star A" by blast
  then show "c # w \<in> star A"
    using star_step [of "c # u" A v] by simp
qed

lemma conc_cons:
  "c # w \<in> conc A B \<longleftrightarrow>
     (\<exists>u v. w = u @ v \<and> c # u \<in> A \<and> v \<in> B) \<or> ([] \<in> A \<and> c # w \<in> B)"
  unfolding conc_def by (auto simp: Cons_eq_append_conv)

lemma lang_mk_seq: "lang (mk_seq r s) = conc (lang r) (lang s)"
  by (auto simp: mk_seq_def conc_def)

lemma lang_mk_alt: "lang (mk_alt r s) = lang r \<union> lang s"
  by (auto simp: mk_alt_def)

lemma in_conc_iff: "w \<in> conc A B \<longleftrightarrow> (\<exists>u v. w = u @ v \<and> u \<in> A \<and> v \<in> B)"
  by (auto simp: conc_def)

lemma lang_deriv: "w \<in> lang (deriv c r) \<longleftrightarrow> c # w \<in> lang r"
proof (induction r arbitrary: w)
  case Never
  show ?case by simp
next
  case Empty
  show ?case by simp
next
  case (Sym a)
  show ?case by simp
next
  case (Alt r s)
  then show ?case by (simp add: lang_mk_alt)
next
  case (Seq r s)
  have "w \<in> lang (deriv c (Seq r s)) \<longleftrightarrow>
        w \<in> conc (lang (deriv c r)) (lang s) \<or> (nullable r \<and> w \<in> lang (deriv c s))"
    by (simp add: lang_mk_seq lang_mk_alt)
  also have "\<dots> \<longleftrightarrow> (\<exists>u v. w = u @ v \<and> c # u \<in> lang r \<and> v \<in> lang s)
        \<or> ([] \<in> lang r \<and> c # w \<in> lang s)"
    unfolding in_conc_iff Seq.IH nullable_iff ..
  also have "\<dots> \<longleftrightarrow> c # w \<in> lang (Seq r s)"
    by (simp only: lang.simps conc_cons)
  finally show ?case .
next
  case (Rep r)
  have "w \<in> lang (deriv c (Rep r)) \<longleftrightarrow> w \<in> conc (lang (deriv c r)) (star (lang r))"
    by (simp add: lang_mk_seq)
  also have "\<dots> \<longleftrightarrow> (\<exists>u v. w = u @ v \<and> c # u \<in> lang r \<and> v \<in> star (lang r))"
    unfolding in_conc_iff Rep.IH ..
  also have "\<dots> \<longleftrightarrow> c # w \<in> lang (Rep r)"
    by (simp only: lang.simps star_cons)
  finally show ?case .
qed

lemma fullmatch_iff: "fullmatch r s \<longleftrightarrow> s \<in> lang r"
  by (induction s arbitrary: r) (simp_all add: nullable_iff lang_deriv)

lemma matches_at_iff: "matches_at r s \<longleftrightarrow> (\<exists>u v. s = u @ v \<and> u \<in> lang r)"
proof (induction s arbitrary: r)
  case Nil
  then show ?case by (simp add: nullable_iff)
next
  case (Cons c cs)
  have "(\<exists>u v. c # cs = u @ v \<and> u \<in> lang r) \<longleftrightarrow>
        [] \<in> lang r \<or> (\<exists>u v. cs = u @ v \<and> c # u \<in> lang r)"
    by (auto simp: Cons_eq_append_conv)
  with Cons show ?case by (simp add: nullable_iff lang_deriv)
qed

lemma re_search_iff:
  "re_search r s \<longleftrightarrow> (\<exists>p u v. s = p @ u @ v \<and> u \<in> lang r)"
proof (induction s)
  case Nil
  then show ?case by (simp add: nullable_iff)
next
  case (Cons c cs)
  have "(\<exists>p u v. c # cs = p @ u @ v \<and> u \<in> lang r) \<longleftrightarrow>
        (\<exists>u v. c # cs = u @ v \<and> u \<in> lang r) \<or> (\<exists>p u v. cs = p @ u @ v \<and> u \<in> lang r)"
  proof
    assume "\<exists>p u v. c # cs = p @ u @ v \<and> u \<in> lang r"
    then obtain p u v where *: "c # cs = p @ u @ v" "u \<in> lang r" by blast
    show "(\<exists>u v. c # cs = u @ v \<and> u \<in> lang r) \<or> (\<exists>p u v. cs = p @ u @ v \<and> u \<in> lang r)"
    proof (cases p)
      case Nil
      with * show ?thesis by auto
    next
      case (Cons d p')
      with * have "cs = p' @ u @ v" by simp
      with * show ?thesis by blast
    qed
  next
    assume "(\<exists>u v. c # cs = u @ v \<and> u \<in> lang r) \<or> (\<exists>p u v. cs = p @ u @ v \<and> u \<in> lang r)"
    then show "\<exists>p u v. c # cs = p @ u @ v \<and> u \<in> lang r"
    proof
      assume "\<exists>u v. c # cs = u @ v \<and> u \<in> lang r"
      then obtain u v where "c # cs = [] @ u @ v" "u \<in> lang r" by auto
      then show ?thesis by blast
    next
      assume "\<exists>p u v. cs = p @ u @ v \<and> u \<in> lang r"
      then obtain p u v where "c # cs = (c # p) @ u @ v" "u \<in> lang r" by auto
      then show ?thesis by blast
    qed
  qed
  with Cons show ?case by (simp add: matches_at_iff del: matches_at.simps)
qed

lemma any_pattern_found_iff:
  "any_pattern_found ps code \<longleftrightarrow> (\<exists>p\<in>set ps. re_search p code)"
  by (induction ps) simp_all

section \<open>The name check of \<open>main\<close>\<close>

text \<open>
  The check accepts exactly the identifiers and the identifiers followed by one line
  feed. Every accepted name consists of letters, digits, underscores and line feeds,
  so it stands for itself inside a pattern.
\<close>

lemma star_of_chars:
  "s \<in> star {[c] | c. P c} \<longleftrightarrow> list_all P s"
proof
  assume "s \<in> star {[c] | c. P c}"
  then show "list_all P s"
    by (induction rule: star.induct) auto
next
  assume "list_all P s"
  then show "s \<in> star {[c] | c. P c}"
  proof (induction s)
    case Nil
    show ?case by (rule star_nil)
  next
    case (Cons c cs)
    then have "[c] \<in> {[c] | c. P c}" and "cs \<in> star {[c] | c. P c}" by auto
    then have "[c] @ cs \<in> star {[c] | c. P c}" by (rule star_step)
    then show ?case by simp
  qed
qed

lemma accepts_word_class:
  "accepts (Class [Range CHR ''a'' CHR ''z'', Range CHR ''A'' CHR ''Z'',
                   Range CHR ''0'' CHR ''9'', Single CHR ''_'']) c
     \<longleftrightarrow> ascii_letter c \<or> ascii_digit c \<or> c = CHR ''_''"
  by (auto simp: ascii_letter_def ascii_digit_def)

lemma accepts_start_class:
  "accepts (Class [Range CHR ''a'' CHR ''z'', Range CHR ''A'' CHR ''Z'', Single CHR ''_'']) c
     \<longleftrightarrow> ascii_letter c \<or> c = CHR ''_''"
  by (auto simp: ascii_letter_def)

lemma fullmatch_identifier_re: "fullmatch identifier_re s \<longleftrightarrow> is_identifier s"
proof -
  let ?start = "\<lambda>c. ascii_letter c \<or> c = CHR ''_''"
  let ?word = "\<lambda>d. ascii_letter d \<or> ascii_digit d \<or> d = CHR ''_''"
  have "s \<in> lang identifier_re \<longleftrightarrow>
        (\<exists>u v. s = u @ v \<and> u \<in> {[c] | c. ?start c} \<and> list_all ?word v)"
    unfolding identifier_re_def many_def word_class_def lang.simps in_conc_iff
      accepts_word_class accepts_start_class star_of_chars ..
  also have "\<dots> \<longleftrightarrow> (\<exists>c cs. s = c # cs \<and> ?start c \<and> list_all ?word cs)"
  proof
    assume "\<exists>u v. s = u @ v \<and> u \<in> {[c] | c. ?start c} \<and> list_all ?word v"
    then obtain c v where "s = [c] @ v" "?start c" "list_all ?word v" by blast
    then have "s = c # v \<and> ?start c \<and> list_all ?word v" by simp
    then show "\<exists>c cs. s = c # cs \<and> ?start c \<and> list_all ?word cs" by blast
  next
    assume "\<exists>c cs. s = c # cs \<and> ?start c \<and> list_all ?word cs"
    then obtain c cs where "s = c # cs" "?start c" "list_all ?word cs" by blast
    then have "s = [c] @ cs \<and> [c] \<in> {[c] | c. ?start c} \<and> list_all ?word cs" by simp
    then show "\<exists>u v. s = u @ v \<and> u \<in> {[c] | c. ?start c} \<and> list_all ?word v" by blast
  qed
  also have "\<dots> \<longleftrightarrow> is_identifier s"
    by (cases s) (simp_all add: is_identifier_def)
  finally show ?thesis by (simp add: fullmatch_iff)
qed

lemma identifier_ok_iff:
  "identifier_ok s \<longleftrightarrow> is_identifier s \<or> (\<exists>b. s = b @ [newline] \<and> is_identifier b)"
proof -
  have "(s \<noteq> [] \<and> last s = newline \<and> is_identifier (butlast s)) \<longleftrightarrow>
        (\<exists>b. s = b @ [newline] \<and> is_identifier b)"
    by (metis butlast_snoc last_snoc snoc_eq_iff_butlast)
  then show ?thesis
    by (simp add: identifier_ok_def match_to_dollar_def fullmatch_identifier_re)
qed

lemma is_identifier_chars:
  "is_identifier b \<Longrightarrow> c \<in> set b \<Longrightarrow> ascii_letter c \<or> ascii_digit c \<or> c = CHR ''_''"
  by (cases b) (auto simp: is_identifier_def list_all_iff)

lemma identifier_ok_chars:
  assumes "identifier_ok s" and "c \<in> set s"
  shows "ascii_letter c \<or> ascii_digit c \<or> c = CHR ''_'' \<or> c = newline"
proof -
  from assms(1) consider "is_identifier s" | b where "s = b @ [newline]" "is_identifier b"
    using identifier_ok_iff by blast
  then show ?thesis
  proof cases
    case 1
    then show ?thesis using is_identifier_chars assms(2) by blast
  next
    case 2
    then have "c \<in> set b \<or> c = newline" using assms(2) by auto
    then show ?thesis using is_identifier_chars 2(2) by blast
  qed
qed

section \<open>Texts that the validation patterns find\<close>

text \<open>
  The subscript shape, for names that \<open>main\<close> admits: \<open>if\<close>, white space,
  \<open>request.form\<close> or \<open>request.POST\<close>, optional white space, the field name in
  brackets and quotes of either kind, any characters of the same line, \<open>!=\<close>, optional
  white space and the token variable. Such a comparison is found wherever it stands in
  the text.
\<close>

lemma concI: "u \<in> A \<Longrightarrow> v \<in> B \<Longrightarrow> u @ v \<in> conc A B"
  unfolding conc_def by blast

lemma lit_lang: "s \<in> lang (lit s)"
proof (induction s)
  case Nil
  show ?case by simp
next
  case (Cons c cs)
  have "[c] @ cs \<in> conc (lang (Sym (Lit c))) (lang (lit cs))"
    unfolding in_conc_iff using Cons by auto
  then show ?case by simp
qed

lemma seqs_lang:
  "list_all2 (\<lambda>w r. w \<in> lang r) parts rs \<Longrightarrow> concat parts \<in> lang (seqs rs)"
proof (induction rule: list_all2_induct)
  case Nil
  show ?case by simp
next
  case (Cons w parts r rs)
  then have "w @ concat parts \<in> conc (lang r) (lang (seqs rs))"
    unfolding in_conc_iff by blast
  then show ?case by simp
qed

lemma one_char_many: "accepts a c \<Longrightarrow> [c] \<in> lang (many (Sym a))"
proof -
  assume "accepts a c"
  then have "[c] \<in> lang (Sym a)" by simp
  then have "[c] @ [] \<in> star (lang (Sym a))" by (intro star_step star_nil)
  then show ?thesis by (simp add: many_def)
qed

lemma chars_in_many: "list_all (accepts a) w \<Longrightarrow> w \<in> lang (many (Sym a))"
  using star_of_chars [of w "accepts a"] by (simp add: many_def)

lemma chars_in_many1:
  "w \<noteq> [] \<Longrightarrow> list_all (accepts a) w \<Longrightarrow> w \<in> lang (many1 (Sym a))"
proof -
  assume "w \<noteq> []" and all: "list_all (accepts a) w"
  then obtain c cs where w: "w = c # cs" by (cases w) auto
  with all have "[c] \<in> lang (Sym a)" and "cs \<in> star (lang (Sym a))"
    using star_of_chars [of cs "accepts a"] by simp_all
  then have "[c] @ cs \<in> conc (lang (Sym a)) (star (lang (Sym a)))" by (rule concI)
  then show ?thesis by (simp add: w many1_def)
qed

lemma subscript_shape_detected_any_layout:
  assumes "identifier_ok tn" and "identifier_ok ff"
    and "q \<in> {CHR 0x27, CHR 0x22}" and "q' \<in> {CHR 0x27, CHR 0x22}"
    and "obj \<in> {''form'', ''POST''}"
    and "w1 \<noteq> []" and "list_all py_isspace w1"
    and "list_all py_isspace w2" and "list_all py_isspace w3"
    and "list_all (\<lambda>c. c \<noteq> newline) filler"
  shows "is_token_validation_present
           (before @ ''if'' @ w1 @ ''request.'' @ obj @ w2 @ ''['' @ [q] @ ff @ [q'] @ '']''
              @ filler @ ''!='' @ w3 @ tn @ after)
           tn ff"
proof -
  let ?rs = "[lit ''if'', many1 ws] @ request_obj @ [many ws, lit ''[''] @ quoted ff @
            [lit '']'', many dot, lit ''!='', many ws, lit tn, many dot]"
  let ?parts = "[''if'', w1, ''request.'', obj, w2, ''['', [q], ff, [q'], '']'', filler,
              ''!='', w3, tn, []]"
  have sp1: "w1 \<in> lang (many1 ws)"
    using chars_in_many1 [of w1 Whitespace] assms(6,7) by (simp add: ws_def list_all_iff)
  have sp2: "w2 \<in> lang (many ws)"
    using chars_in_many [of Whitespace w2] assms(8) by (simp add: ws_def list_all_iff)
  have sp3: "w3 \<in> lang (many ws)"
    using chars_in_many [of Whitespace w3] assms(9) by (simp add: ws_def list_all_iff)
  have fl: "filler \<in> lang (many dot)"
    using chars_in_many [of AnyChar filler] assms(10) by (simp add: dot_def list_all_iff)
  have e: "[] \<in> lang (many dot)"
    by (simp add: many_def star_nil)
  have o: "obj \<in> lang (Alt (lit ''form'') (lit ''POST''))"
    using assms(5) lit_lang [of "''form''"] lit_lang [of "''POST''"] by auto
  have q1: "[q] \<in> lang quote_class" and q2: "[q'] \<in> lang quote_class"
    using assms(3,4) by (auto simp: quote_class_def)
  have "list_all2 (\<lambda>w r. w \<in> lang r) ?parts ?rs"
    using sp1 sp2 sp3 fl e o q1 q2 lit_lang
    by (simp add: request_obj_def quoted_def del: lit.simps lang.simps)
  then have m: "concat ?parts \<in> lang (seqs ?rs)" by (rule seqs_lang)
  have "before @ ''if'' @ w1 @ ''request.'' @ obj @ w2 @ ''['' @ [q] @ ff @ [q'] @ '']''
              @ filler @ ''!='' @ w3 @ tn @ after
          = before @ concat ?parts @ after"
    by simp
  with m have "re_search (seqs ?rs)
      (before @ ''if'' @ w1 @ ''request.'' @ obj @ w2 @ ''['' @ [q] @ ff @ [q'] @ '']''
              @ filler @ ''!='' @ w3 @ tn @ after)"
    unfolding re_search_iff by blast
  moreover have "seqs ?rs \<in> set (validation_patterns tn ff)"
    by (simp add: validation_patterns_def)
  ultimately show ?thesis
    unfolding is_token_validation_present_def any_pattern_found_iff by blast
qed

section \<open>What a scan computes\<close>

lemma files_loop_flags:
  "fst (files_loop e d tn ff ex root files ((g, v), evs)) =
     (g \<or> (\<exists>p\<in>set (filter (\<lambda>p. \<not> is_excluded d ex p) (candidates_in root files)).
              fst (fst (analyze_file e p tn ff))),
      v \<or> (\<exists>p\<in>set (filter (\<lambda>p. \<not> is_excluded d ex p) (candidates_in root files)).
              snd (fst (analyze_file e p tn ff))))"
proof (induction files arbitrary: g v evs)
  case Nil
  show ?case by (simp add: candidates_in_def)
next
  case (Cons f files)
  obtain gen val evs' where af: "analyze_file e (path_join root f) tn ff = ((gen, val), evs')"
    by (metis surj_pair)
  show ?case
    using Cons.IH af by (auto simp: candidates_in_def Let_def)
qed

lemma walk_loop_flags:
  "fst (walk_loop e d tn ff ex triples ((g, v), evs)) =
     (g \<or> (\<exists>p\<in>set (filter (\<lambda>p. \<not> is_excluded d ex p) (candidate_files triples)).
              fst (fst (analyze_file e p tn ff))),
      v \<or> (\<exists>p\<in>set (filter (\<lambda>p. \<not> is_excluded d ex p) (candidate_files triples)).
              snd (fst (analyze_file e p tn ff))))"
proof (induction triples arbitrary: g v evs)
  case Nil
  show ?case by (simp add: candidate_files_def)
next
  case (Cons t triples)
  obtain root dirs files where t: "t = (root, dirs, files)" by (cases t) auto
  obtain g' v' evs' where st: "files_loop e d tn ff ex root files ((g, v), evs) = ((g', v'), evs')"
    by (metis surj_pair)
  have gv: "g' =
     (g \<or> (\<exists>p\<in>set (filter (\<lambda>p. \<not> is_excluded d ex p) (candidates_in root files)).
              fst (fst (analyze_file e p tn ff))))"
    "v' = (v \<or> (\<exists>p\<in>set (filter (\<lambda>p. \<not> is_excluded d ex p) (candidates_in root files)).
              snd (fst (analyze_file e p tn ff))))"
    using files_loop_flags [of e d tn ff ex root files g v evs] st by simp_all
  have cf: "candidate_files (t # triples) = candidates_in root files @ candidate_files triples"
    by (simp add: t candidate_files_def)
  show ?case
    unfolding cf using Cons.IH [of g' v' evs'] by (simp add: t st gv bex_Un disj_assoc)
qed

lemma analyze_directory_flags:
  "fst (analyze_directory e d tn ff ex) =
     ((\<exists>p\<in>set (scanned_files e d ex). fst (fst (analyze_file e p tn ff))),
      (\<exists>p\<in>set (scanned_files e d ex). snd (fst (analyze_file e p tn ff))))"
  by (simp add: analyze_directory_def walk_loop_flags scanned_files_def)

lemma analyze_file_opens:
  "OpenRead p \<in> set (snd (analyze_file e q tn ff)) \<longleftrightarrow> p = q"
  by (auto simp: analyze_file_def split: read_result.splits)

lemma analyze_file_no_info:
  "Log INFO m \<notin> set (snd (analyze_file e q tn ff))"
  by (auto simp: analyze_file_def split: read_result.splits)

lemma files_loop_opens:
  "OpenRead p \<in> set (snd (files_loop e d tn ff ex root files (fl, evs))) \<longleftrightarrow>
     OpenRead p \<in> set evs
     \<or> p \<in> set (filter (\<lambda>p. \<not> is_excluded d ex p) (candidates_in root files))"
proof (induction files arbitrary: fl evs)
  case Nil
  show ?case by (simp add: candidates_in_def)
next
  case (Cons f files)
  obtain g v where fl: "fl = (g, v)" by (cases fl) auto
  obtain gen val evs' where af: "analyze_file e (path_join root f) tn ff = ((gen, val), evs')"
    by (metis surj_pair)
  have op: "OpenRead p \<in> set evs' \<longleftrightarrow> p = path_join root f"
    using analyze_file_opens [of p e "path_join root f" tn ff] af by simp
  show ?case
    unfolding fl using Cons.IH op af by (auto simp: candidates_in_def Let_def)
qed

lemma walk_loop_opens:
  "OpenRead p \<in> set (snd (walk_loop e d tn ff ex triples (fl, evs))) \<longleftrightarrow>
     OpenRead p \<in> set evs
     \<or> p \<in> set (filter (\<lambda>p. \<not> is_excluded d ex p) (candidate_files triples))"
proof (induction triples arbitrary: fl evs)
  case Nil
  show ?case by (simp add: candidate_files_def)
next
  case (Cons t triples)
  obtain root dirs files where t: "t = (root, dirs, files)" by (cases t) auto
  obtain fl' evs' where st: "files_loop e d tn ff ex root files (fl, evs) = (fl', evs')"
    by (cases "files_loop e d tn ff ex root files (fl, evs)") auto
  have inner: "OpenRead p \<in> set evs' \<longleftrightarrow>
     OpenRead p \<in> set evs
     \<or> p \<in> set (filter (\<lambda>p. \<not> is_excluded d ex p) (candidates_in root files))"
    using files_loop_opens [of p e d tn ff ex root files fl evs] st by simp
  have cf: "candidate_files (t # triples) = candidates_in root files @ candidate_files triples"
    by (simp add: t candidate_files_def)
  show ?case
    unfolding cf using Cons.IH [of fl' evs'] inner by (auto simp: t st)
qed

lemma analyze_directory_opens:
  "OpenRead p \<in> set (snd (analyze_directory e d tn ff ex)) \<longleftrightarrow>
     p \<in> set (scanned_files e d ex)"
  by (simp add: analyze_directory_def walk_loop_opens scanned_files_def)

lemma files_loop_skips:
  "Log INFO (skipping_message p)
       \<in> set (snd (files_loop e d tn ff ex root files (fl, evs))) \<longleftrightarrow>
     Log INFO (skipping_message p) \<in> set evs
     \<or> p \<in> set (filter (\<lambda>p. is_excluded d ex p) (candidates_in root files))"
proof (induction files arbitrary: fl evs)
  case Nil
  show ?case by (simp add: candidates_in_def)
next
  case (Cons f files)
  obtain g v where fl: "fl = (g, v)" by (cases fl) auto
  obtain gen val evs' where af: "analyze_file e (path_join root f) tn ff = ((gen, val), evs')"
    by (metis surj_pair)
  have ni: "Log INFO (skipping_message p) \<notin> set evs'"
    using analyze_file_no_info [of _ e "path_join root f" tn ff] af by simp
  have inj: "skipping_message (path_join root f) = skipping_message p \<longleftrightarrow> path_join root f = p"
    by (simp add: skipping_message_def)
  show ?case
    unfolding fl using Cons.IH ni af inj by (auto simp: candidates_in_def Let_def)
qed

lemma walk_loop_skips:
  "Log INFO (skipping_message p)
       \<in> set (snd (walk_loop e d tn ff ex triples (fl, evs))) \<longleftrightarrow>
     Log INFO (skipping_message p) \<in> set evs
     \<or> p \<in> set (filter (\<lambda>p. is_excluded d ex p) (candidate_files triples))"
proof (induction triples arbitrary: fl evs)
  case Nil
  show ?case by (simp add: candidate_files_def)
next
  case (Cons t triples)
  obtain root dirs files where t: "t = (root, dirs, files)" by (cases t) auto
  obtain fl' evs' where st: "files_loop e d tn ff ex root files (fl, evs) = (fl', evs')"
    by (cases "files_loop e d tn ff ex root files (fl, evs)") auto
  have inner: "Log INFO (skipping_message p) \<in> set evs' \<longleftrightarrow>
     Log INFO (skipping_message p) \<in> set evs
     \<or> p \<in> set (filter (\<lambda>p. is_excluded d ex p) (candidates_in root files))"
    using files_loop_skips [of p e d tn ff ex root files fl evs] st by simp
  have cf: "candidate_files (t # triples) = candidates_in root files @ candidate_files triples"
    by (simp add: t candidate_files_def)
  show ?case
    unfolding cf using Cons.IH [of fl' evs'] inner by (auto simp: t st)
qed

lemma analyze_directory_skips:
  "Log INFO (skipping_message p) \<in> set (snd (analyze_directory e d tn ff ex))
     \<longleftrightarrow> p \<in> set (candidate_files (fs_walk e d)) \<and> is_excluded d ex p"
  by (auto simp: analyze_directory_def walk_loop_skips)

lemma is_excluded_iff:
  "is_excluded d ex p \<longleftrightarrow>
     (\<exists>x\<in>set ex. normpath (path_join d x) = normpath p
                \<or> is_substring (normpath (path_join d x)) (normpath p))"
  by (simp add: is_excluded_def list_ex_iff)

lemma is_excluded_mono: "set ex \<subseteq> set ex' \<Longrightarrow> is_excluded d ex p \<Longrightarrow> is_excluded d ex' p"
  by (auto simp: is_excluded_iff)

section \<open>Directory scans\<close>

text \<open>
  Claim C1. For every directory scan, \<open>analyze_directory\<close> returns, in each of the two
  dimensions independently, the logical OR of the results of \<open>analyze_file\<close> over the
  scanned files (the \<open>.py\<close> files that are not excluded, see \<open>scanned_files\<close>); in
  particular, when one scanned file yields (True, False) and another yields
  (False, True), the aggregate is (True, True).
\<close>

theorem analyze_directory_or_of_files:
  "fst (analyze_directory e d tn ff ex) =
     ((\<exists>p\<in>set (scanned_files e d ex). fst (fst (analyze_file e p tn ff))),
      (\<exists>p\<in>set (scanned_files e d ex). snd (fst (analyze_file e p tn ff))))
   \<and> (\<forall>p1 p2. p1 \<in> set (scanned_files e d ex) \<and> p2 \<in> set (scanned_files e d ex)
         \<and> fst (analyze_file e p1 tn ff) = (True, False)
         \<and> fst (analyze_file e p2 tn ff) = (False, True)
         \<longrightarrow> fst (analyze_directory e d tn ff ex) = (True, True))"
proof (intro conjI allI impI)
  show flags: "fst (analyze_directory e d tn ff ex) =
     ((\<exists>p\<in>set (scanned_files e d ex). fst (fst (analyze_file e p tn ff))),
      (\<exists>p\<in>set (scanned_files e d ex). snd (fst (analyze_file e p tn ff))))"
    by (rule analyze_directory_flags)
  fix p1 p2
  assume h: "p1 \<in> set (scanned_files e d ex) \<and> p2 \<in> set (scanned_files e d ex)
         \<and> fst (analyze_file e p1 tn ff) = (True, False)
         \<and> fst (analyze_file e p2 tn ff) = (False, True)"
  then have "\<exists>p\<in>set (scanned_files e d ex). fst (fst (analyze_file e p tn ff))"
    and "\<exists>p\<in>set (scanned_files e d ex). snd (fst (analyze_file e p tn ff))"
    by (metis fst_conv, metis snd_conv)
  then show "fst (analyze_directory e d tn ff ex) = (True, True)"
    by (simp add: flags)
qed

theorem analyze_directory_or_of_files_witness:
  "''proj/gen.py'' \<in> set (scanned_files sample_fs ''proj'' [])
   \<and> ''proj/val.py'' \<in> set (scanned_files sample_fs ''proj'' [])
   \<and> fst (analyze_file sample_fs ''proj/gen.py'' ''csrf_token'' ''csrf_token'') = (True, False)
   \<and> fst (analyze_file sample_fs ''proj/val.py'' ''csrf_token'' ''csrf_token'') = (False, True)
   \<and> fst (analyze_directory sample_fs ''proj'' ''csrf_token'' ''csrf_token'' []) = (True, True)"
proof -
  have h1: "''proj/gen.py'' \<in> set (scanned_files sample_fs ''proj'' [])" by code_simp
  have h2: "''proj/val.py'' \<in> set (scanned_files sample_fs ''proj'' [])" by code_simp
  have h3: "fst (analyze_file sample_fs ''proj/gen.py'' ''csrf_token'' ''csrf_token'') = (True, False)"
    by code_simp
  have h4: "fst (analyze_file sample_fs ''proj/val.py'' ''csrf_token'' ''csrf_token'') = (False, True)"
    by code_simp
  from analyze_directory_or_of_files [of sample_fs "''proj''" "''csrf_token''" "''csrf_token''" "[]"]
  have "fst (analyze_directory sample_fs ''proj'' ''csrf_token'' ''csrf_token'' []) = (True, True)"
    using h1 h2 h3 h4 by blast
  with h1 h2 h3 h4 show ?thesis by blast
qed

text \<open>
  Claim C8. When the walk of a directory meets no file name ending in \<open>.py\<close> (an
  empty directory included), \<open>analyze_directory\<close> returns (False, False).
\<close>

theorem no_python_files_gives_false:
  "\<forall>(root, dirs, files)\<in>set (fs_walk e d). \<forall>f\<in>set files. \<not> endswith f ''.py'' \<Longrightarrow>
     fst (analyze_directory e d tn ff ex) = (False, False)"
proof -
  assume h: "\<forall>(root, dirs, files)\<in>set (fs_walk e d). \<forall>f\<in>set files. \<not> endswith f ''.py''"
  have "candidate_files (fs_walk e d) = []"
    using h by (auto simp: candidate_files_def candidates_in_def filter_empty_conv)
  then have "scanned_files e d ex = []" by (simp add: scanned_files_def)
  then show ?thesis by (simp add: analyze_directory_flags)
qed

theorem no_python_files_gives_false_witness:
  "candidate_files (fs_walk sample_fs ''proj/docs'') = []
   \<and> fst (analyze_directory sample_fs ''proj/docs'' ''csrf_token'' ''csrf_token'' []) = (False, False)
   \<and> fs_walk sample_fs ''empty'' = [(''empty'', [], [])]
   \<and> fst (analyze_directory sample_fs ''empty'' ''csrf_token'' ''csrf_token'' []) = (False, False)"
proof -
  have h1: "\<forall>(root, dirs, files)\<in>set (fs_walk sample_fs ''proj/docs'').
              \<forall>f\<in>set files. \<not> endswith f ''.py''"
    by (simp add: sample_fs_def endswith_def)
  have h2: "\<forall>(root, dirs, files)\<in>set (fs_walk sample_fs ''empty'').
              \<forall>f\<in>set files. \<not> endswith f ''.py''"
    by (simp add: sample_fs_def endswith_def)
  have c: "candidate_files (fs_walk sample_fs ''proj/docs'') = []" by code_simp
  have w: "fs_walk sample_fs ''empty'' = [(''empty'', [], [])]" by code_simp
  show ?thesis
    using c w no_python_files_gives_false [OF h1] no_python_files_gives_false [OF h2] by blast
qed

text \<open>
  Claim C10. For every directory, token name and form field, enlarging the exclusion
  list (by one entry or by several, at any position) can turn an aggregate flag from
  True to False only, never from False to True.
\<close>

theorem exclusion_is_antitone:
  "set ex \<subseteq> set ex' \<Longrightarrow>
     (fst (fst (analyze_directory e d tn ff ex')) \<longrightarrow> fst (fst (analyze_directory e d tn ff ex)))
   \<and> (snd (fst (analyze_directory e d tn ff ex')) \<longrightarrow> snd (fst (analyze_directory e d tn ff ex)))"
proof -
  assume sub: "set ex \<subseteq> set ex'"
  have "set (scanned_files e d ex') \<subseteq> set (scanned_files e d ex)"
    using is_excluded_mono [OF sub] by (auto simp: scanned_files_def)
  then show ?thesis
    by (auto simp: analyze_directory_flags)
qed

theorem exclusion_is_antitone_witness:
  "set [] \<subseteq> set [''gen.py'']
   \<and> fst (analyze_directory sample_fs ''proj'' ''csrf_token'' ''csrf_token'' []) = (True, True)
   \<and> fst (analyze_directory sample_fs ''proj'' ''csrf_token'' ''csrf_token'' [''gen.py''])
       = (False, True)"
proof -
  have h: "set [] \<subseteq> set [''gen.py'']" by simp
  have a: "fst (fst (analyze_directory sample_fs ''proj'' ''csrf_token'' ''csrf_token'' []))"
    by code_simp
  have b: "\<not> fst (fst (analyze_directory sample_fs ''proj'' ''csrf_token'' ''csrf_token'' [''gen.py'']))"
    by code_simp
  have c: "snd (fst (analyze_directory sample_fs ''proj'' ''csrf_token'' ''csrf_token'' [''gen.py'']))"
    by code_simp
  have "snd (fst (analyze_directory sample_fs ''proj'' ''csrf_token'' ''csrf_token'' []))"
    using c exclusion_is_antitone [OF h, of sample_fs "''proj''" "''csrf_token''" "''csrf_token''"]
    by blast
  with h a b c show ?thesis by (simp add: prod_eq_iff)
qed

text \<open>
  Claim C3, amended. During a directory scan a candidate file is skipped (logged as
  skipped and never opened) if and only if its normalized path equals, or contains as a
  substring, the normalized join of the scan root with some exclusion entry. A relative
  entry is thus anchored at the scan root: with root \<open>proj\<close> the fragment \<open>test\<close>
  excludes what contains \<open>proj/test\<close>, not every path that contains \<open>test\<close>.
\<close>

theorem exclusion_is_anchored_at_scan_root:
  "p \<in> set (candidate_files (fs_walk e d)) \<Longrightarrow>
     (OpenRead p \<notin> set (snd (analyze_directory e d tn ff ex)) \<longleftrightarrow>
        (\<exists>x\<in>set ex. normpath (path_join d x) = normpath p
                   \<or> is_substring (normpath (path_join d x)) (normpath p)))
   \<and> (Log INFO (skipping_message p) \<in> set (snd (analyze_directory e d tn ff ex)) \<longleftrightarrow>
        (\<exists>x\<in>set ex. normpath (path_join d x) = normpath p
                   \<or> is_substring (normpath (path_join d x)) (normpath p)))"
  by (simp add: analyze_directory_opens analyze_directory_skips scanned_files_def
      is_excluded_iff)

theorem exclusion_is_anchored_at_scan_root_witness:
  "''proj/src/test_a.py'' \<in> set (candidate_files (fs_walk sample_fs ''proj''))
   \<and> OpenRead ''proj/src/test_a.py''
        \<notin> set (snd (analyze_directory sample_fs ''proj'' ''csrf_token'' ''csrf_token'' [''src'']))
   \<and> is_substring (normpath (path_join ''proj'' ''src'')) (normpath ''proj/src/test_a.py'')
   \<and> \<not> is_substring (normpath (path_join ''proj'' ''test'')) (normpath ''proj/src/test_a.py'')
   \<and> is_substring (normpath (path_join ''.'' ''test'')) (normpath ''./src/test_a.py'')"
proof -
  have h: "''proj/src/test_a.py'' \<in> set (candidate_files (fs_walk sample_fs ''proj''))"
    by code_simp
  have s1: "is_substring (normpath (path_join ''proj'' ''src'')) (normpath ''proj/src/test_a.py'')"
    by code_simp
  have s2: "\<not> is_substring (normpath (path_join ''proj'' ''test'')) (normpath ''proj/src/test_a.py'')"
    by code_simp
  have s3: "is_substring (normpath (path_join ''.'' ''test'')) (normpath ''./src/test_a.py'')"
    by code_simp
  have "\<exists>x\<in>set [''src'']. normpath (path_join ''proj'' x) = normpath ''proj/src/test_a.py''
          \<or> is_substring (normpath (path_join ''proj'' x)) (normpath ''proj/src/test_a.py'')"
    using s1 by simp
  then have "OpenRead ''proj/src/test_a.py''
        \<notin> set (snd (analyze_directory sample_fs ''proj'' ''csrf_token'' ''csrf_token'' [''src'']))"
    using exclusion_is_anchored_at_scan_root [OF h, of "''csrf_token''" "''csrf_token''" "[''src'']"]
    by blast
  with h s1 s2 s3 show ?thesis by blast
qed

text \<open>
  Claim C3 as stated fails: under the root \<open>proj\<close> with the exclusion \<open>test\<close>, the
  candidate \<open>proj/src/test_a.py\<close> contains the fragment and is opened all the same.
\<close>

theorem exclusion_fragment_counterexample:
  "is_substring (normpath ''test'') (normpath ''proj/src/test_a.py'')
   \<and> ''proj/src/test_a.py'' \<in> set (candidate_files (fs_walk sample_fs ''proj''))
   \<and> OpenRead ''proj/src/test_a.py''
        \<in> set (snd (analyze_directory sample_fs ''proj'' ''csrf_token'' ''csrf_token'' [''test'']))"
  by code_simp

section \<open>The pattern predicates\<close>

text \<open>
  Claim C2. For every text, each of the two predicates tries its fixed list of
  patterns in order and answers True at the first one that matches (\<open>find\<close> returns
  the first element that satisfies the test), and a pattern matches when some
  substring of the whole text, line feeds included, belongs to its language, letter
  case being significant; the answer is False exactly when no pattern matches.
\<close>

theorem pattern_predicates_search_whole_text:
  "(is_token_generation_present code tn \<longleftrightarrow>
      find (\<lambda>p. re_search p code) (generation_patterns tn) \<noteq> None)
   \<and> (is_token_generation_present code tn \<longleftrightarrow>
        (\<exists>p\<in>set (generation_patterns tn).
            \<exists>before m after. code = before @ m @ after \<and> m \<in> lang p))
   \<and> (is_token_validation_present code tn ff \<longleftrightarrow>
        find (\<lambda>p. re_search p code) (validation_patterns tn ff) \<noteq> None)
   \<and> (is_token_validation_present code tn ff \<longleftrightarrow>
        (\<exists>p\<in>set (validation_patterns tn ff).
            \<exists>before m after. code = before @ m @ after \<and> m \<in> lang p))"
proof -
  have first: "any_pattern_found ps code \<longleftrightarrow> find (\<lambda>p. re_search p code) ps \<noteq> None" for ps
    by (induction ps) simp_all
  have anywhere: "any_pattern_found ps code \<longleftrightarrow>
      (\<exists>p\<in>set ps. \<exists>before m after. code = before @ m @ after \<and> m \<in> lang p)" for ps
    by (simp add: any_pattern_found_iff re_search_iff)
  show ?thesis
    unfolding is_token_generation_present_def is_token_validation_present_def
    using first anywhere by blast
qed

theorem pattern_predicates_search_whole_text_witness:
  "(\<exists>p\<in>set (generation_patterns ''csrf_token'').
      \<exists>before m after.
        ''token = 1'' @ [newline] @ ''csrf_token ='' @ [newline] @ ''  make.generate_token(16)''
          = before @ m @ after \<and> m \<in> lang p)
   \<and> \<not> (\<exists>p\<in>set (generation_patterns ''csrf_token'').
      \<exists>before m after. ''CSRF_TOKEN = generate_token()'' = before @ m @ after \<and> m \<in> lang p)"
proof -
  have a: "is_token_generation_present
     (''token = 1'' @ [newline] @ ''csrf_token ='' @ [newline] @ ''  make.generate_token(16)'')
     ''csrf_token''"
    by code_simp
  have b: "\<not> is_token_generation_present ''CSRF_TOKEN = generate_token()'' ''csrf_token''"
    by code_simp
  show ?thesis
    using a b
      pattern_predicates_search_whole_text [of
        "''token = 1'' @ [newline] @ ''csrf_token ='' @ [newline] @ ''  make.generate_token(16)''"
        "''csrf_token''"]
      pattern_predicates_search_whole_text [of "''CSRF_TOKEN = generate_token()''" "''csrf_token''"]
    by blast
qed

section \<open>Reading files\<close>

text \<open>
  Claim C6. When the read of a file fails (the file is missing, cannot be decoded, or
  any other error), \<open>analyze_file\<close> logs one error and returns (False, False); in a
  directory scan the file contributes nothing to either flag, every scanned file is
  still opened, and a run on such a single file ends with status 0.
\<close>

theorem read_failure_contributes_nothing:
  assumes "\<forall>code. fs_read e p \<noteq> Content code"
  shows "fst (analyze_file e p tn ff) = (False, False)
     \<and> (\<exists>msg. snd (analyze_file e p tn ff) = [OpenRead p, Log ERROR msg])
     \<and> fst (analyze_directory e d tn ff ex) =
         ((\<exists>q\<in>set (scanned_files e d ex) - {p}. fst (fst (analyze_file e q tn ff))),
          (\<exists>q\<in>set (scanned_files e d ex) - {p}. snd (fst (analyze_file e q tn ff))))
     \<and> (\<forall>q\<in>set (scanned_files e d ex). OpenRead q \<in> set (snd (analyze_directory e d tn ff ex)))
     \<and> (identifier_ok tn \<and> identifier_ok ff \<and> fs_isfile e p \<longrightarrow>
          fst (main e (cli p tn ff ex)) = 0)"
proof -
  have none: "fst (analyze_file e p tn ff) = (False, False)"
    using assms by (cases "fs_read e p") (simp_all add: analyze_file_def)
  have logged: "\<exists>msg. snd (analyze_file e p tn ff) = [OpenRead p, Log ERROR msg]"
    using assms by (cases "fs_read e p") (simp_all add: analyze_file_def)
  have rest: "(\<exists>q\<in>set qs. P (fst (analyze_file e q tn ff))) \<longleftrightarrow>
              (\<exists>q\<in>set qs - {p}. P (fst (analyze_file e q tn ff)))"
    if "\<not> P (False, False)" for P qs
    using that none by auto
  have flags: "fst (analyze_directory e d tn ff ex) =
         ((\<exists>q\<in>set (scanned_files e d ex) - {p}. fst (fst (analyze_file e q tn ff))),
          (\<exists>q\<in>set (scanned_files e d ex) - {p}. snd (fst (analyze_file e q tn ff))))"
    using rest [of fst "scanned_files e d ex"] rest [of snd "scanned_files e d ex"]
    by (simp add: analyze_directory_flags)
  have opened: "\<forall>q\<in>set (scanned_files e d ex). OpenRead q \<in> set (snd (analyze_directory e d tn ff ex))"
    by (simp add: analyze_directory_opens)
  have run: "identifier_ok tn \<and> identifier_ok ff \<and> fs_isfile e p \<longrightarrow>
          fst (main e (cli p tn ff ex)) = 0"
    by (simp add: main_def cli_def split: prod.splits)
  from none logged flags opened run show ?thesis by blast
qed

theorem read_failure_contributes_nothing_witness:
  "(\<forall>code. fs_read sample_fs ''proj/broken.py'' \<noteq> Content code)
   \<and> analyze_file sample_fs ''proj/broken.py'' ''csrf_token'' ''csrf_token'' =
       ((False, False),
        [OpenRead ''proj/broken.py'',
         Log ERROR ''Error reading file proj/broken.py: invalid start byte''])
   \<and> ''proj/src/test_a.py'' \<in> set (scanned_files sample_fs ''proj'' [])
   \<and> OpenRead ''proj/src/test_a.py''
       \<in> set (snd (analyze_directory sample_fs ''proj'' ''csrf_token'' ''csrf_token'' []))
   \<and> fst (main sample_fs (cli ''proj/broken.py'' ''csrf_token'' ''csrf_token'' [])) = 0"
proof -
  have r: "fs_read sample_fs ''proj/broken.py'' = ReadFailure ''invalid start byte''"
    by code_simp
  then have h: "\<forall>code. fs_read sample_fs ''proj/broken.py'' \<noteq> Content code" by simp
  have af: "analyze_file sample_fs ''proj/broken.py'' ''csrf_token'' ''csrf_token'' =
       ((False, False),
        [OpenRead ''proj/broken.py'',
         Log ERROR ''Error reading file proj/broken.py: invalid start byte''])"
    by code_simp
  have later: "''proj/src/test_a.py'' \<in> set (scanned_files sample_fs ''proj'' [])"
    by code_simp
  have ok: "identifier_ok ''csrf_token''" by code_simp
  have isf: "fs_isfile sample_fs ''proj/broken.py''" by code_simp
  show ?thesis
    using h af later ok isf
      read_failure_contributes_nothing [OF h, of "''csrf_token''" "''csrf_token''" "''proj''" "[]"]
    by blast
qed

text \<open>
  Claim C7 (the code diverges). A file whose text compares the token variable with the
  form field read through the call shape \<open>request.POST.get('csrf_token')\<close> should be
  reported with validation True. Source lines 69 and 71 ask for a closing square
  bracket after the quoted field name where the call has a parenthesis, so the call
  shape is never found, while the same text with \<open>]\<close> in place of \<open>)\<close> is.
\<close>

theorem call_shape_not_detected:
  "fs_read sample_fs ''proj/api/views.py'' = Content call_text
   \<and> analyze_file sample_fs ''proj/api/views.py'' ''csrf_token'' ''csrf_token'' =
       ((False, False), [OpenRead ''proj/api/views.py''])
   \<and> \<not> is_token_validation_present
         (''if request.form.get('' @ [CHR 0x22] @ ''csrf_token'' @ [CHR 0x22] @ '') != csrf_token:'')
         ''csrf_token'' ''csrf_token''
   \<and> is_token_validation_present
         (''if request.POST.get('' @ [CHR 0x27] @ ''csrf_token'' @ [CHR 0x27] @ ''] != csrf_token:'')
         ''csrf_token'' ''csrf_token''"
  by code_simp

theorem call_shape_not_detected_witness:
  "fs_read sample_fs ''proj/api/views.py'' = Content call_text
   \<and> \<not> snd (fst (analyze_file sample_fs ''proj/api/views.py'' ''csrf_token'' ''csrf_token''))"
  using call_shape_not_detected by simp

section \<open>The command line\<close>

lemma main_rejects_invalid_names:
  "\<not> identifier_ok (token_name a) \<or> \<not> identifier_ok (form_field a) \<Longrightarrow>
     main e a = (1, [Log ERROR invalid_names_message])"
  by (auto simp: main_def)

text \<open>
  Claim C4 (the code diverges). A name that is not an identifier should end the run
  with status 1 before any file is touched. The name \<open>csrf_token\<close> followed by a line
  feed is not an identifier, yet the check of source line 159 accepts it (\<open>$\<close> also
  matches before a final line feed): the file is opened and the run ends with status 0.
\<close>

theorem trailing_newline_passes_name_check:
  "\<not> is_identifier (''csrf_token'' @ [newline])
   \<and> main sample_fs (cli ''proj/gen.py'' (''csrf_token'' @ [newline]) ''csrf_token'' []) =
     (0, [IsFile ''proj/gen.py'', OpenRead ''proj/gen.py'',
          Log WARNING ''CSRF token generation logic NOT found.'',
          Log WARNING ''CSRF token validation logic NOT found.''])"
  by code_simp

theorem trailing_newline_passes_name_check_witness:
  "identifier_ok (''csrf_token'' @ [newline])
   \<and> fst (main sample_fs (cli ''proj/gen.py'' (''csrf_token'' @ [newline]) ''csrf_token'' [])) = 0
   \<and> OpenRead ''proj/gen.py''
       \<in> set (snd (main sample_fs
                      (cli ''proj/gen.py'' (''csrf_token'' @ [newline]) ''csrf_token'' [])))"
proof -
  have accepted: "identifier_ok (''csrf_token'' @ [newline])" by code_simp
  show ?thesis
    using accepted trailing_newline_passes_name_check by simp
qed

text \<open>
  What \<open>main\<close> does compute: the exit status in terms of its own check, the same
  spelled out with the identifiers of the specification, the run on a directory, and
  the report when nothing is found.
\<close>

lemma main_exit_status_by_own_check:
  "fst (main e a) =
     (if \<not> identifier_ok (token_name a) \<or> \<not> identifier_ok (form_field a)
         \<or> (\<not> fs_isfile e (source_code_path a) \<and> \<not> fs_isdir e (source_code_path a))
      then 1 else 0)"
  by (simp add: main_def split: prod.splits)

lemma main_exit_status_spelled_out:
  "fst (main e a) = 1 \<longleftrightarrow>
     \<not> (is_identifier (token_name a)
         \<or> (\<exists>b. token_name a = b @ [newline] \<and> is_identifier b))
     \<or> \<not> (is_identifier (form_field a)
         \<or> (\<exists>b. form_field a = b @ [newline] \<and> is_identifier b))
     \<or> (\<not> fs_isfile e (source_code_path a) \<and> \<not> fs_isdir e (source_code_path a))"
  unfolding main_exit_status_by_own_check identifier_ok_iff by simp

lemma main_on_directory:
  "identifier_ok tn \<Longrightarrow> identifier_ok ff \<Longrightarrow> \<not> fs_isfile e p \<Longrightarrow> fs_isdir e p \<Longrightarrow>
     main e (cli p tn ff ex) =
       (0, [IsFile p, IsDir p] @ snd (analyze_directory e p tn ff ex)
           @ report (fst (analyze_directory e p tn ff ex)))"
  by (simp add: main_def cli_def split: prod.splits)

lemma report_nothing_found:
  "report (False, False) =
     [Log WARNING ''CSRF token generation logic NOT found.'',
      Log WARNING ''CSRF token validation logic NOT found.'']"
  by (simp add: report_def)

text \<open>
  Claim C5 (the code diverges). The exit status should be 1 exactly when the source
  path is neither an existing file nor an existing directory or a name argument is not
  an identifier, and 0 on every other run. For the existing directory \<open>proj\<close> and the
  form field \<open>csrf_token\<close> followed by a line feed, which is not an identifier, the
  directory is scanned and the run ends with status 0: the slip of source line 159
  that claim C4 shows on a single file.
\<close>

theorem name_with_line_feed_exits_zero:
  "\<not> is_identifier (''csrf_token'' @ [newline])
   \<and> fs_isdir sample_fs ''proj''
   \<and> fst (main sample_fs (cli ''proj'' ''csrf_token'' (''csrf_token'' @ [newline]) [])) = 0
   \<and> Walk ''proj''
       \<in> set (snd (main sample_fs (cli ''proj'' ''csrf_token'' (''csrf_token'' @ [newline]) [])))"
  by code_simp

theorem name_with_line_feed_exits_zero_witness:
  "fst (main sample_fs (cli ''proj'' ''csrf_token'' (''csrf_token'' @ [newline]) [])) \<noteq> 1"
  using name_with_line_feed_exits_zero by simp

text \<open>
  Claim C9. When the source path is an existing file, \<open>main\<close> analyses that file
  whatever its extension and whatever the exclusion list holds: the run is the check
  of the path, the events of \<open>analyze_file\<close> and the report, with status 0.
\<close>

theorem single_file_ignores_extension_and_exclude:
  "identifier_ok tn \<Longrightarrow> identifier_ok ff \<Longrightarrow> fs_isfile e p \<Longrightarrow>
     main e (cli p tn ff ex) =
       (0, [IsFile p] @ snd (analyze_file e p tn ff) @ report (fst (analyze_file e p tn ff)))"
  by (simp add: main_def cli_def split: prod.splits)

theorem single_file_ignores_extension_and_exclude_witness:
  "identifier_ok ''csrf_token'' \<and> fs_isfile sample_fs ''proj/notes.txt''
   \<and> \<not> endswith ''proj/notes.txt'' ''.py''
   \<and> is_excluded ''proj'' [''notes.txt''] ''proj/notes.txt''
   \<and> main sample_fs (cli ''proj/notes.txt'' ''csrf_token'' ''csrf_token'' [''notes.txt'']) =
       (0, [IsFile ''proj/notes.txt'', OpenRead ''proj/notes.txt'',
            Log INFO ''CSRF token generation logic found.'',
            Log WARNING ''CSRF token validation logic NOT found.''])"
proof -
  have h1: "identifier_ok ''csrf_token''" by code_simp
  have h2: "fs_isfile sample_fs ''proj/notes.txt''" by code_simp
  have h3: "\<not> endswith ''proj/notes.txt'' ''.py''" by code_simp
  have h4: "is_excluded ''proj'' [''notes.txt''] ''proj/notes.txt''" by code_simp
  have af: "analyze_file sample_fs ''proj/notes.txt'' ''csrf_token'' ''csrf_token''
              = ((True, False), [OpenRead ''proj/notes.txt''])"
    by code_simp
  show ?thesis
    using h1 h2 h3 h4
      single_file_ignores_extension_and_exclude [OF h1 h1 h2, of "[''notes.txt'']"]
    by (simp add: af report_def)
qed

end
